theory Spec2Isabelle
  imports Main
begin

section \<open>PathKit: splitting a path into its components (CDeps.cpp)\<close>

text \<open>
  The file \<^verbatim>\<open>CDeps.cpp\<close> holds two functions: \<^verbatim>\<open>PATPathComponents\<close>, which splits a
  path at its \<^verbatim>\<open>/\<close> characters, and \<^verbatim>\<open>PATFreePathComponents\<close>, which releases what the
  first one allocated.

  The argument \<^verbatim>\<open>path\<close> is modelled by the list of the characters stored from the
  pointer on; the memory behind the list holds the terminating NUL, and a NUL inside the
  list ends the C string there. Positions (\<^verbatim>\<open>size_t\<close>) never exceed
  \<^verbatim>\<open>strlen(path)\<close> and are natural numbers; the counter \<^verbatim>\<open>int i\<close> of the copying loop
  is a natural number as well, which is the C++ behaviour as long as the number of
  components fits into an \<^verbatim>\<open>int\<close>.
\<close>

subsection \<open>Memory\<close>

type_synonym addr = nat

text \<open>
  \<^verbatim>\<open>(*strings)[i].c_str()\<close> is a pointer to the characters of element \<open>i\<close> of the vector
  that lives at some address.
\<close>

datatype cptr = CStrOf addr nat

text \<open>
  The two kinds of object that the code allocates with \<^verbatim>\<open>new\<close>: a \<^verbatim>\<open>vector<string>\<close> and
  an array of \<^verbatim>\<open>const char *\<close>, whose entries are indeterminate (\<open>None\<close>) until assigned.
\<close>

datatype obj = StringVector "string list" | PointerArray "cptr option list"

record heap =
  objs :: "addr \<rightharpoonup> obj"
  next_addr :: addr

definition new_obj :: "obj \<Rightarrow> heap \<Rightarrow> addr \<times> heap" where
  "new_obj ob h =
     (next_addr h, h\<lparr>objs := (objs h)(next_addr h \<mapsto> ob), next_addr := Suc (next_addr h)\<rparr>)"

definition store :: "addr \<Rightarrow> obj \<Rightarrow> heap \<Rightarrow> heap" where
  "store a ob h = h\<lparr>objs := (objs h)(a \<mapsto> ob)\<rparr>"

definition empty_heap :: heap where
  "empty_heap = \<lparr>objs = Map.empty, next_addr = 0\<rparr>"

subsection \<open>Reading the path\<close>

definition sep :: char where
  "sep = CHR ''/''"

text \<open>\<^verbatim>\<open>path[i]\<close>: the character at position \<open>i\<close>, the terminator at the end.\<close>

definition char_at :: "string \<Rightarrow> nat \<Rightarrow> char" where
  "char_at path i = (if i < length path then path ! i else CHR 0x00)"

definition strlen :: "string \<Rightarrow> nat" where
  "strlen path = length (takeWhile (\<lambda>c. c \<noteq> CHR 0x00) path)"

subsection \<open>The loops of PATPathComponents\<close>

text \<open>\<^verbatim>\<open>while (curPos < endPos && path[curPos] == '/') curPos++;\<close>\<close>

function skip_separators :: "string \<Rightarrow> nat \<Rightarrow> nat \<Rightarrow> nat" where
  "skip_separators path endPos curPos =
     (if curPos < endPos \<and> char_at path curPos = sep
      then skip_separators path endPos (curPos + 1)
      else curPos)"
  by pat_completeness auto
termination
  by (relation "measure (\<lambda>(path, endPos, curPos). endPos - curPos)") auto

text \<open>\<^verbatim>\<open>while (curEnd < endPos && path[curEnd] != '/') curEnd++;\<close>\<close>

function find_end :: "string \<Rightarrow> nat \<Rightarrow> nat \<Rightarrow> nat" where
  "find_end path endPos curEnd =
     (if curEnd < endPos \<and> char_at path curEnd \<noteq> sep
      then find_end path endPos (curEnd + 1)
      else curEnd)"
  by pat_completeness auto
termination
  by (relation "measure (\<lambda>(path, endPos, curEnd). endPos - curEnd)") auto

text \<open>\<^verbatim>\<open>string str(path + curPos, curEnd - curPos)\<close>\<close>

definition substring :: "string \<Rightarrow> nat \<Rightarrow> nat \<Rightarrow> string" where
  "substring path pos n = take n (drop pos path)"

text \<open>
  The outer loop \<^verbatim>\<open>while (curPos < endPos) { ... }\<close>, with the vector \<^verbatim>\<open>*strings\<close> as an
  accumulator; \<^verbatim>\<open>push_back\<close> appends.
\<close>

function scan :: "string \<Rightarrow> nat \<Rightarrow> nat \<Rightarrow> string list \<Rightarrow> string list" where
  "scan path endPos curPos strings =
     (if curPos < endPos then
        (let curPos' = skip_separators path endPos curPos in
         if curPos' = endPos then strings
         else
           (let curEnd = find_end path endPos curPos';
                str = substring path curPos' (curEnd - curPos')
            in scan path endPos curEnd (strings @ [str])))
      else strings)"
  by pat_completeness auto
termination
proof (relation "measure (\<lambda>(path, endPos, curPos, strings). endPos - curPos)")
  show "wf (measure (\<lambda>(path, endPos, curPos, strings). endPos - curPos))"
    by simp
next
  fix path :: string and endPos curPos :: nat and strings :: "string list"
    and curPos' curEnd :: nat and str :: string
  assume lt: "curPos < endPos"
    and p: "curPos' = skip_separators path endPos curPos"
    and ne: "curPos' \<noteq> endPos"
    and e: "curEnd = find_end path endPos curPos'"
  have skip_ge: "i \<le> skip_separators path endPos i" for i
    by (induction path endPos i rule: skip_separators.induct)
       (metis Suc_eq_plus1 Suc_leD le_refl skip_separators.simps)
  have skip_le: "i \<le> endPos \<Longrightarrow> skip_separators path endPos i \<le> endPos" for i
    by (induction path endPos i rule: skip_separators.induct)
       (metis Suc_eq_plus1 Suc_leI skip_separators.simps)
  have skip_stops: "skip_separators path endPos i < endPos \<Longrightarrow>
      char_at path (skip_separators path endPos i) \<noteq> sep" for i
    by (induction path endPos i rule: skip_separators.induct)
       (metis skip_separators.simps)
  have end_ge: "i \<le> find_end path endPos i" for i
    by (induction path endPos i rule: find_end.induct)
       (metis Suc_eq_plus1 Suc_leD le_refl find_end.simps)
  from lt have "curPos' \<le> endPos"
    unfolding p by (intro skip_le) simp
  with ne have lt': "curPos' < endPos" by simp
  then have "char_at path curPos' \<noteq> sep"
    unfolding p by (rule skip_stops)
  with lt' have "find_end path endPos curPos' = find_end path endPos (curPos' + 1)"
    by (subst find_end.simps) simp
  with end_ge [of "curPos' + 1"] have "curPos' < curEnd"
    unfolding e by simp
  moreover have "curPos \<le> curPos'"
    unfolding p by (rule skip_ge)
  ultimately show "((path, endPos, curEnd, strings @ [str]), (path, endPos, curPos, strings))
      \<in> measure (\<lambda>(path, endPos, curPos, strings). endPos - curPos)"
    using lt by simp
qed

text \<open>
  \<^verbatim>\<open>for (int i = 0; i < strings->size(); i++) components[i] = (*strings)[i].c_str();\<close>
  where \<open>strings\<close> is the address of the vector and \<open>sz\<close> is \<^verbatim>\<open>strings->size()\<close>.
\<close>

function copy_pointers :: "addr \<Rightarrow> nat \<Rightarrow> nat \<Rightarrow> cptr option list \<Rightarrow> cptr option list" where
  "copy_pointers strings sz i components =
     (if i < sz
      then copy_pointers strings sz (i + 1) (components[i := Some (CStrOf strings i)])
      else components)"
  by pat_completeness auto
termination
  by (relation "measure (\<lambda>(strings, sz, i, components). sz - i)") auto

subsection \<open>PATPathComponents\<close>

text \<open>
  The contents of \<^verbatim>\<open>*strings\<close> when the array is built: the
  leading \<^verbatim>\<open>push_back("/")\<close>, the outer loop, the trailing \<^verbatim>\<open>push_back("/")\<close>.
\<close>

definition collect_strings :: "string \<Rightarrow> string list" where
  "collect_strings path =
     (let curPos = 0;
          endPos = strlen path;
          strings0 = (if char_at path curPos = sep then [[sep]] else []);
          strings1 = scan path endPos curPos strings0
      in if endPos > 1 \<and> char_at path (endPos - 1) = sep
         then strings1 @ [[sep]] else strings1)"

text \<open>
  What the caller has after the call: the returned pointer (\<open>None\<close> is \<^verbatim>\<open>NULL\<close>), the
  contents of the cells \<^verbatim>\<open>*count\<close> and \<^verbatim>\<open>*temp\<close>, and the heap.
\<close>

record split_result =
  components :: "addr option"
  count_out :: nat
  temp_out :: "addr option"
  heap_out :: heap

text \<open>
  The arguments \<open>count0\<close> and \<open>temp0\<close> are the contents of \<^verbatim>\<open>*count\<close> and \<^verbatim>\<open>*temp\<close>
  before the call. The function body has no assignment to \<^verbatim>\<open>*temp\<close>, so the cell keeps
  \<open>temp0\<close> on both paths.

  On a non-empty path the body allocates the vector (empty at first, filled by the
  \<^verbatim>\<open>push_back\<close> calls), then the array of \<^verbatim>\<open>strings->size()\<close> pointers, fills the array
  in the copying loop, writes the size to \<^verbatim>\<open>*count\<close> and returns the array.
\<close>

definition PATPathComponents :: "string \<Rightarrow> nat \<Rightarrow> addr option \<Rightarrow> heap \<Rightarrow> split_result" where
  "PATPathComponents path count0 temp0 h =
     (if char_at path 0 = CHR 0x00 then
        \<lparr>components = None, count_out = 0, temp_out = temp0, heap_out = h\<rparr>
      else
        (let (strings, h1) = new_obj (StringVector []) h;
             contents = collect_strings path;
             h2 = store strings (StringVector contents) h1;
             sz = length contents;
             (comps, h3) = new_obj (PointerArray (replicate sz None)) h2;
             h4 = store comps (PointerArray (copy_pointers strings sz 0 (replicate sz None))) h3
         in \<lparr>components = Some comps, count_out = sz, temp_out = temp0, heap_out = h4\<rparr>))"

subsection \<open>PATFreePathComponents\<close>

text \<open>
  \<^verbatim>\<open>delete\<close> of a null pointer does nothing; \<^verbatim>\<open>delete\<close> of a pointer that is not a live
  object of the expected kind is undefined behaviour, an error of the model. The array was
  allocated with \<^verbatim>\<open>new[]\<close> and is released with the plain \<^verbatim>\<open>delete\<close> of the source,
  modelled as releasing it.
\<close>

datatype error = InvalidDelete

definition delete_array :: "addr option \<Rightarrow> heap \<Rightarrow> error + heap" where
  "delete_array p h =
     (case p of
        None \<Rightarrow> Inr h
      | Some a \<Rightarrow>
          (case objs h a of
             Some (PointerArray ps) \<Rightarrow> Inr (h\<lparr>objs := (objs h)(a := None)\<rparr>)
           | _ \<Rightarrow> Inl InvalidDelete))"

definition delete_vector :: "addr option \<Rightarrow> heap \<Rightarrow> error + heap" where
  "delete_vector p h =
     (case p of
        None \<Rightarrow> Inr h
      | Some a \<Rightarrow>
          (case objs h a of
             Some (StringVector ss) \<Rightarrow> Inr (h\<lparr>objs := (objs h)(a := None)\<rparr>)
           | _ \<Rightarrow> Inl InvalidDelete))"

definition PATFreePathComponents :: "addr option \<Rightarrow> addr option \<Rightarrow> heap \<Rightarrow> error + heap" where
  "PATFreePathComponents comps temp h =
     (case delete_array comps h of
        Inl e \<Rightarrow> Inl e
      | Inr h1 \<Rightarrow> delete_vector temp h1)"

subsection \<open>What the caller reads\<close>

text \<open>
  The characters of a C string: those before the first NUL.
\<close>

definition c_string :: "string \<Rightarrow> string" where
  "c_string buf = takeWhile (\<lambda>c. c \<noteq> CHR 0x00) buf"

text \<open>
  Following a \<^verbatim>\<open>const char *\<close> that came from \<^verbatim>\<open>c_str()\<close>: defined when the vector is live
  and has that element.
\<close>

definition read_c_str :: "heap \<Rightarrow> cptr option \<Rightarrow> string option" where
  "read_c_str h p =
     (case p of
        None \<Rightarrow> None
      | Some (CStrOf a i) \<Rightarrow>
          (case objs h a of
             Some (StringVector ss) \<Rightarrow> if i < length ss then Some (c_string (ss ! i)) else None
           | _ \<Rightarrow> None))"

text \<open>
  The sequence of segments that the returned array denotes: every entry of the array
  object, read as a C string; the empty sequence for \<^verbatim>\<open>NULL\<close>. It is \<open>None\<close> when the
  returned pointer is not a live array or an entry cannot be read.
\<close>

definition segments :: "split_result \<Rightarrow> string list option" where
  "segments r =
     (case components r of
        None \<Rightarrow> Some []
      | Some a \<Rightarrow>
          (case objs (heap_out r) a of
             Some (PointerArray ps) \<Rightarrow> those (map (read_c_str (heap_out r)) ps)
           | _ \<Rightarrow> None))"

subsection \<open>The specification's notions\<close>

text \<open>
  The pieces of a character sequence between its separators, empty pieces included: a
  sequence with \<open>k\<close> separators has \<open>k + 1\<close> pieces.
\<close>

fun pieces :: "string \<Rightarrow> string list" where
  "pieces [] = [[]]"
| "pieces (c # cs) =
     (if c = sep then [] # pieces cs
      else (case pieces cs of [] \<Rightarrow> [[c]] | f # fs \<Rightarrow> (c # f) # fs))"

text \<open>
  The maximal runs of non-separator characters, in their order of appearance: the
  non-empty pieces.
\<close>

definition maximal_runs :: "string \<Rightarrow> string list" where
  "maximal_runs p = filter (\<lambda>s. s \<noteq> []) (pieces p)"

text \<open>
  Joining segments: a single separator between two adjacent segments that are both not
  the root marker, nothing next to a root marker.
\<close>

fun join :: "string list \<Rightarrow> string" where
  "join [] = []"
| "join [s] = s"
| "join (s # t # rest) =
     (if s = [sep] \<or> t = [sep] then s @ join (t # rest) else s @ [sep] @ join (t # rest))"

text \<open>
  Collapsing repeated separators: a separator that is followed by another one is dropped.
\<close>

fun collapse :: "string \<Rightarrow> string" where
  "collapse [] = []"
| "collapse [c] = [c]"
| "collapse (c # d # cs) =
     (if c = sep \<and> d = sep then collapse (d # cs) else c # collapse (d # cs))"

text \<open>
  The root markers of a character sequence: one in front when its first character is the
  separator, one behind when it has more than one character and the last one is the
  separator.
\<close>

definition leading :: "string \<Rightarrow> string list" where
  "leading p = (if p \<noteq> [] \<and> hd p = sep then [[sep]] else [])"

definition trailing :: "string \<Rightarrow> string list" where
  "trailing p = (if 1 < length p \<and> last p = sep then [[sep]] else [])"

text \<open>
  The recursive equations of the loops are unfolded by hand where needed.
\<close>

declare skip_separators.simps [simp del] find_end.simps [simp del] scan.simps [simp del]
  copy_pointers.simps [simp del]

section \<open>The loops compute the maximal runs\<close>

lemma strlen_c_string: "strlen path = length (c_string path)"
  unfolding strlen_def c_string_def by (rule refl)

lemma c_string_take: "c_string path = take (strlen path) path"
  unfolding strlen_def c_string_def by (rule takeWhile_eq_take)

lemma NUL_notin_c_string: "CHR 0x00 \<notin> set (c_string path)"
  by (auto simp: c_string_def dest: set_takeWhileD)

lemma char_at_c_string: "i < strlen path \<Longrightarrow> char_at path i = c_string path ! i"
proof -
  assume lt: "i < strlen path"
  have "strlen path \<le> length path"
    by (simp add: strlen_def length_takeWhile_le)
  with lt have "i < length path" by simp
  with lt show ?thesis
    by (simp add: char_at_def c_string_take)
qed

lemma char_at_0_NUL: "char_at path 0 = CHR 0x00 \<longleftrightarrow> c_string path = []"
  by (cases path) (auto simp: char_at_def c_string_def)

lemma char_at_0_hd: "c_string path \<noteq> [] \<Longrightarrow> char_at path 0 = hd (c_string path)"
  by (cases path) (auto simp: char_at_def c_string_def split: if_splits)

lemma char_at_last:
  "c_string path \<noteq> [] \<Longrightarrow> char_at path (strlen path - 1) = last (c_string path)"
  by (simp add: char_at_c_string strlen_c_string last_conv_nth)

lemma skip_separators_eq:
  "endPos = strlen path \<Longrightarrow> i \<le> endPos \<Longrightarrow>
   skip_separators path endPos i = i + length (takeWhile (\<lambda>c. c = sep) (drop i (c_string path)))"
proof (induction path endPos i rule: skip_separators.induct)
  case (1 path endPos curPos)
  show ?case
  proof (cases "curPos < endPos")
    case True
    with "1.prems" have nth: "char_at path curPos = c_string path ! curPos"
      by (simp add: char_at_c_string)
    from True "1.prems" have d: "drop curPos (c_string path) =
        c_string path ! curPos # drop (Suc curPos) (c_string path)"
      by (simp add: Cons_nth_drop_Suc strlen_c_string)
    show ?thesis
    proof (cases "char_at path curPos = sep")
      case s: True
      with True "1.IH" "1.prems" have "skip_separators path endPos (curPos + 1) =
          curPos + 1 + length (takeWhile (\<lambda>c. c = sep) (drop (curPos + 1) (c_string path)))"
        by simp
      with True s nth d show ?thesis
        by (subst skip_separators.simps) simp
    next
      case False
      with nth d show ?thesis
        by (subst skip_separators.simps) simp
    qed
  next
    case False
    with "1.prems" show ?thesis
      by (subst skip_separators.simps) (simp add: strlen_c_string)
  qed
qed

lemma find_end_eq:
  "endPos = strlen path \<Longrightarrow> i \<le> endPos \<Longrightarrow>
   find_end path endPos i = i + length (takeWhile (\<lambda>c. c \<noteq> sep) (drop i (c_string path)))"
proof (induction path endPos i rule: find_end.induct)
  case (1 path endPos curEnd)
  show ?case
  proof (cases "curEnd < endPos")
    case True
    with "1.prems" have nth: "char_at path curEnd = c_string path ! curEnd"
      by (simp add: char_at_c_string)
    from True "1.prems" have d: "drop curEnd (c_string path) =
        c_string path ! curEnd # drop (Suc curEnd) (c_string path)"
      by (simp add: Cons_nth_drop_Suc strlen_c_string)
    show ?thesis
    proof (cases "char_at path curEnd \<noteq> sep")
      case s: True
      with True "1.IH" "1.prems" have "find_end path endPos (curEnd + 1) =
          curEnd + 1 + length (takeWhile (\<lambda>c. c \<noteq> sep) (drop (curEnd + 1) (c_string path)))"
        by simp
      with True s nth d show ?thesis
        by (subst find_end.simps) simp
    next
      case False
      with nth d show ?thesis
        by (subst find_end.simps) simp
    qed
  next
    case False
    with "1.prems" show ?thesis
      by (subst find_end.simps) (simp add: strlen_c_string)
  qed
qed

lemma pieces_eq:
  "pieces cs = takeWhile (\<lambda>c. c \<noteq> sep) cs #
     (case dropWhile (\<lambda>c. c \<noteq> sep) cs of [] \<Rightarrow> [] | d # r \<Rightarrow> pieces r)"
  by (induction cs) (auto split: list.splits)

lemma maximal_runs_Nil: "maximal_runs [] = []"
  by (simp add: maximal_runs_def)

lemma maximal_runs_sep: "maximal_runs (sep # cs) = maximal_runs cs"
  by (simp add: maximal_runs_def)

lemma maximal_runs_nonsep:
  assumes "c \<noteq> sep"
  shows "maximal_runs (c # cs) =
    (c # takeWhile (\<lambda>x. x \<noteq> sep) cs) # maximal_runs (dropWhile (\<lambda>x. x \<noteq> sep) cs)"
proof -
  define d where "d = dropWhile (\<lambda>x. x \<noteq> sep) cs"
  have tl: "filter (\<lambda>s. s \<noteq> []) (case d of [] \<Rightarrow> [] | e # r \<Rightarrow> pieces r) = maximal_runs d"
  proof (cases d)
    case Nil
    then show ?thesis by (simp add: maximal_runs_Nil)
  next
    case (Cons e r)
    then have "e = sep"
      using hd_dropWhile [of "\<lambda>x. x \<noteq> sep" cs] by (simp add: d_def)
    with Cons show ?thesis
      by (simp add: maximal_runs_def)
  qed
  have "pieces (c # cs) = (c # takeWhile (\<lambda>x. x \<noteq> sep) cs) # (case d of [] \<Rightarrow> [] | e # r \<Rightarrow> pieces r)"
    using assms by (subst pieces_eq) (simp add: d_def)
  then show ?thesis
    using tl by (simp add: maximal_runs_def d_def)
qed

lemma maximal_runs_skip: "maximal_runs (dropWhile (\<lambda>c. c = sep) xs) = maximal_runs xs"
  by (induction xs) (simp_all add: maximal_runs_sep)

lemma maximal_runs_take_run:
  assumes "xs \<noteq> []" "hd xs \<noteq> sep"
  shows "maximal_runs xs =
    takeWhile (\<lambda>x. x \<noteq> sep) xs # maximal_runs (dropWhile (\<lambda>x. x \<noteq> sep) xs)"
  using assms by (cases xs) (simp_all add: maximal_runs_nonsep)

lemma substring_c_string:
  assumes "pos + n \<le> strlen path"
  shows "substring path pos n = take n (drop pos (c_string path))"
proof -
  have "drop pos (c_string path) = take (strlen path - pos) (drop pos path)"
    by (simp add: c_string_take drop_take)
  moreover have "min n (strlen path - pos) = n"
    using assms by simp
  ultimately show ?thesis
    by (simp add: substring_def)
qed

lemma scan_eq:
  "endPos = strlen path \<Longrightarrow> i \<le> endPos \<Longrightarrow>
   scan path endPos i acc = acc @ maximal_runs (drop i (c_string path))"
proof (induction path endPos i acc rule: scan.induct)
  case (1 path endPos curPos strings)
  let ?p = "c_string path"
  have len: "length ?p = endPos"
    using "1.prems" by (simp add: strlen_c_string)
  show ?case
  proof (cases "curPos < endPos")
    case False
    with "1.prems" len show ?thesis
      by (subst scan.simps) (simp add: maximal_runs_Nil)
  next
    case True
    define i' where "i' = skip_separators path endPos curPos"
    have i'_eq: "i' = curPos + length (takeWhile (\<lambda>c. c = sep) (drop curPos ?p))"
      unfolding i'_def using "1.prems" by (rule skip_separators_eq)
    have "length (takeWhile (\<lambda>c. c = sep) (drop curPos ?p)) \<le> length (drop curPos ?p)"
      by (rule length_takeWhile_le)
    with i'_eq len True have i'_le: "i' \<le> endPos" by simp
    have drop_i': "drop i' ?p = dropWhile (\<lambda>c. c = sep) (drop curPos ?p)"
      by (simp add: i'_eq dropWhile_eq_drop add.commute)
    then have runs: "maximal_runs (drop curPos ?p) = maximal_runs (drop i' ?p)"
      by (simp add: maximal_runs_skip)
    show ?thesis
    proof (cases "i' = endPos")
      case e: True
      with len have "drop i' ?p = []" by simp
      with runs have "maximal_runs (drop curPos ?p) = []"
        by (simp add: maximal_runs_Nil)
      with True e show ?thesis
        by (subst scan.simps) (simp add: i'_def [symmetric])
    next
      case ne: False
      with i'_le have i'_lt: "i' < endPos" by simp
      define e where "e = find_end path endPos i'"
      define run where "run = takeWhile (\<lambda>c. c \<noteq> sep) (drop i' ?p)"
      have e_eq: "e = i' + length run"
        unfolding e_def run_def using "1.prems"(1) i'_le by (rule find_end_eq)
      have "length run \<le> length (drop i' ?p)"
        unfolding run_def by (rule length_takeWhile_le)
      with e_eq len i'_le have e_le: "e \<le> endPos" by simp
      from i'_lt len have nonempty: "drop i' ?p \<noteq> []" by simp
      then have hd: "hd (drop i' ?p) \<noteq> sep"
        unfolding drop_i' using hd_dropWhile [of "\<lambda>c. c = sep" "drop curPos ?p"] by simp
      have drop_e: "drop e ?p = dropWhile (\<lambda>c. c \<noteq> sep) (drop i' ?p)"
        by (simp add: e_eq run_def dropWhile_eq_drop add.commute)
      have "substring path i' (e - i') = take (length run) (drop i' ?p)"
        using e_le e_eq "1.prems"(1) by (simp add: substring_c_string)
      also have "\<dots> = run"
        unfolding run_def by (rule takeWhile_eq_take [symmetric])
      finally have str: "substring path i' (e - i') = run" .
      have "scan path endPos e (strings @ [substring path i' (e - i')]) =
          (strings @ [substring path i' (e - i')]) @ maximal_runs (drop e ?p)"
        using True ne e_le "1.prems"(1)
        by (intro "1.IH" [OF _ i'_def _ e_def refl]) simp_all
      moreover have "maximal_runs (drop i' ?p) = run # maximal_runs (drop e ?p)"
        unfolding run_def drop_e using nonempty hd by (rule maximal_runs_take_run)
      ultimately have "scan path endPos e (strings @ [substring path i' (e - i')]) =
          strings @ maximal_runs (drop curPos ?p)"
        by (simp add: str runs)
      with True ne show ?thesis
        by (subst scan.simps) (simp add: i'_def [symmetric] e_def [symmetric] Let_def)
    qed
  qed
qed

lemma collect_strings_eq:
  "collect_strings path =
     leading (c_string path) @ maximal_runs (c_string path) @ trailing (c_string path)"
proof (cases "c_string path = []")
  case True
  then have z: "strlen path = 0" "char_at path 0 = CHR 0x00"
    by (simp_all add: strlen_c_string char_at_0_NUL)
  have "scan path 0 0 [] = []"
    by (subst scan.simps) simp
  with z True show ?thesis
    by (simp add: collect_strings_def leading_def trailing_def maximal_runs_Nil sep_def)
next
  case False
  then have "char_at path 0 = hd (c_string path)"
    by (rule char_at_0_hd)
  moreover from False have "char_at path (strlen path - 1) = last (c_string path)"
    by (rule char_at_last)
  moreover have "scan path (strlen path) 0 acc = acc @ maximal_runs (c_string path)" for acc
    using scan_eq [of "strlen path" path 0 acc] by simp
  ultimately show ?thesis
    using False
    by (simp add: collect_strings_def leading_def trailing_def strlen_c_string Let_def)
qed

lemma concat_pieces: "concat (pieces p) = filter (\<lambda>c. c \<noteq> sep) p"
  by (induction p) (auto split: list.splits)

lemma concat_maximal_runs: "concat (maximal_runs p) = filter (\<lambda>c. c \<noteq> sep) p"
proof -
  have "concat (filter (\<lambda>s. s \<noteq> []) xs) = concat xs" for xs :: "string list"
    by (induction xs) simp_all
  then show ?thesis
    by (simp add: maximal_runs_def concat_pieces)
qed

lemma maximal_runs_chars:
  assumes "s \<in> set (maximal_runs p)"
  shows "set s \<subseteq> {c \<in> set p. c \<noteq> sep}"
proof -
  from assms have "set s \<subseteq> set (concat (maximal_runs p))" by auto
  then show ?thesis
    by (simp add: concat_maximal_runs)
qed

lemma maximal_runs_nonempty: "[] \<notin> set (maximal_runs p)"
  by (simp add: maximal_runs_def)

lemma maximal_runs_no_root: "[sep] \<notin> set (maximal_runs p)"
  using maximal_runs_chars [of "[sep]" p] by auto

lemma collect_strings_no_NUL:
  assumes "s \<in> set (collect_strings path)"
  shows "CHR 0x00 \<notin> set s"
proof -
  from assms consider "s = [sep]" | "s \<in> set (maximal_runs (c_string path))"
    by (auto simp: collect_strings_eq leading_def trailing_def split: if_splits)
  then show ?thesis
  proof cases
    case 1
    then show ?thesis by (simp add: sep_def)
  next
    case 2
    then have "set s \<subseteq> set (c_string path)"
      using maximal_runs_chars by blast
    then show ?thesis
      using NUL_notin_c_string by blast
  qed
qed

lemma c_string_id: "CHR 0x00 \<notin> set s \<Longrightarrow> c_string s = s"
  by (auto simp: c_string_def)

lemma copy_pointers_eq:
  "i \<le> sz \<Longrightarrow> length comps = sz \<Longrightarrow>
   copy_pointers a sz i comps = take i comps @ map (\<lambda>j. Some (CStrOf a j)) [i..<sz]"
proof (induction a sz i comps rule: copy_pointers.induct)
  case (1 strings sz i components)
  show ?case
  proof (cases "i < sz")
    case True
    with "1.prems" have "copy_pointers strings sz (i + 1) (components[i := Some (CStrOf strings i)]) =
        take (i + 1) (components[i := Some (CStrOf strings i)]) @
        map (\<lambda>j. Some (CStrOf strings j)) [i + 1..<sz]"
      by (intro "1.IH") simp_all
    moreover have "take (i + 1) (components[i := Some (CStrOf strings i)]) =
        take i components @ [Some (CStrOf strings i)]"
      using True "1.prems" by (simp add: take_Suc_conv_app_nth)
    ultimately show ?thesis
      using True by (subst copy_pointers.simps) (simp add: upt_conv_Cons)
  next
    case False
    with "1.prems" show ?thesis
      by (subst copy_pointers.simps) simp
  qed
qed

lemma those_map_Some: "those (map Some xs) = Some xs"
  by (induction xs) simp_all

lemma read_back:
  assumes "objs h a = Some (StringVector ss)"
    and "\<forall>s \<in> set ss. CHR 0x00 \<notin> set s"
  shows "those (map (read_c_str h) (map (\<lambda>j. Some (CStrOf a j)) [0..<length ss])) = Some ss"
proof -
  have "map (read_c_str h) (map (\<lambda>j. Some (CStrOf a j)) [0..<length ss]) =
      map (\<lambda>j. Some (ss ! j)) [0..<length ss]"
    using assms by (simp add: read_c_str_def c_string_id)
  also have "\<dots> = map Some (map (\<lambda>j. ss ! j) [0..<length ss])"
    by simp
  also have "\<dots> = map Some ss"
    by (simp only: map_nth)
  finally show ?thesis
    by (simp only: those_map_Some)
qed

lemma PATPathComponents_empty:
  assumes "char_at path 0 = CHR 0x00"
  shows "PATPathComponents path count0 temp0 h =
    \<lparr>components = None, count_out = 0, temp_out = temp0, heap_out = h\<rparr>"
  using assms by (simp add: PATPathComponents_def)

lemma PATPathComponents_nonempty:
  assumes "char_at path 0 \<noteq> CHR 0x00"
  shows "PATPathComponents path count0 temp0 h =
    \<lparr>components = Some (Suc (next_addr h)),
     count_out = length (collect_strings path),
     temp_out = temp0,
     heap_out = \<lparr>objs = (objs h)
         (next_addr h \<mapsto> StringVector (collect_strings path),
          Suc (next_addr h) \<mapsto> PointerArray
            (map (\<lambda>j. Some (CStrOf (next_addr h) j)) [0..<length (collect_strings path)])),
       next_addr = Suc (Suc (next_addr h))\<rparr>\<rparr>"
  using assms
  by (simp add: PATPathComponents_def new_obj_def store_def Let_def copy_pointers_eq)

lemma collect_strings_empty:
  assumes "char_at path 0 = CHR 0x00"
  shows "collect_strings path = []"
  using assms
  by (simp add: collect_strings_eq char_at_0_NUL leading_def trailing_def maximal_runs_Nil)

lemma segments_eq:
  "segments (PATPathComponents path count0 temp0 h) = Some (collect_strings path)"
proof (cases "char_at path 0 = CHR 0x00")
  case True
  then show ?thesis
    by (simp add: PATPathComponents_empty segments_def collect_strings_empty)
next
  case False
  let ?h' = "heap_out (PATPathComponents path count0 temp0 h)"
  have "objs ?h' (next_addr h) = Some (StringVector (collect_strings path))"
    using False by (simp add: PATPathComponents_nonempty)
  then have "those (map (read_c_str ?h')
      (map (\<lambda>j. Some (CStrOf (next_addr h) j)) [0..<length (collect_strings path)])) =
      Some (collect_strings path)"
    using collect_strings_no_NUL by (intro read_back) simp_all
  then show ?thesis
    using False by (simp add: segments_def PATPathComponents_nonempty)
qed

lemma count_out_eq:
  "count_out (PATPathComponents path count0 temp0 h) = length (collect_strings path)"
  by (cases "char_at path 0 = CHR 0x00")
     (simp_all add: PATPathComponents_empty PATPathComponents_nonempty collect_strings_empty)

section \<open>Joining and collapsing\<close>

lemma runs_induct [case_names Nil Sep Run]:
  assumes nil: "P []"
    and sep: "\<And>cs. P cs \<Longrightarrow> P (sep # cs)"
    and run: "\<And>c cs. c \<noteq> sep \<Longrightarrow> P (dropWhile (\<lambda>x. x \<noteq> sep) cs) \<Longrightarrow> P (c # cs)"
  shows "P p"
proof (induction "length p" arbitrary: p rule: less_induct)
  case less
  show ?case
  proof (cases p)
    case Nil
    with nil show ?thesis by simp
  next
    case (Cons c cs)
    show ?thesis
    proof (cases "c = sep")
      case True
      with Cons less sep show ?thesis by simp
    next
      case False
      have "length (dropWhile (\<lambda>x. x \<noteq> sep) cs) \<le> length cs"
        by (rule length_dropWhile_le)
      with Cons have "P (dropWhile (\<lambda>x. x \<noteq> sep) cs)"
        by (intro less) simp
      with False Cons run show ?thesis by simp
    qed
  qed
qed

lemma collapse_Cons_nonsep: "c \<noteq> sep \<Longrightarrow> collapse (c # cs) = c # collapse cs"
  by (cases cs) simp_all

lemma collapse_run: "sep \<notin> set w \<Longrightarrow> collapse (w @ d) = w @ collapse d"
proof (induction w)
  case Nil
  show ?case by simp
next
  case (Cons a w)
  then have "a \<noteq> sep" by auto
  with Cons show ?case
    by (simp add: collapse_Cons_nonsep)
qed

lemma collapse_all_sep: "d \<noteq> [] \<Longrightarrow> set d \<subseteq> {sep} \<Longrightarrow> collapse d = [sep]"
  by (induction d rule: collapse.induct) auto

lemma collapse_hd: "collapse (c # cs) = c # tl (collapse (c # cs))"
  by (induction "c # cs" arbitrary: c cs rule: collapse.induct) auto

lemma collapse_idem: "collapse (collapse p) = collapse p"
proof (induction p rule: collapse.induct)
  case (3 c d cs)
  show ?case
  proof (cases "c = sep \<and> d = sep")
    case True
    with 3 show ?thesis by simp
  next
    case False
    obtain r where r: "collapse (d # cs) = d # r"
      using collapse_hd [of d cs] by blast
    with False 3 show ?thesis by auto
  qed
qed simp_all

lemma no_runs_all_sep: "maximal_runs d = [] \<Longrightarrow> set d \<subseteq> {sep}"
proof -
  assume "maximal_runs d = []"
  then have "filter (\<lambda>c. c \<noteq> sep) d = []"
    using concat_maximal_runs [of d] by simp
  then show ?thesis
    by (auto simp: filter_empty_conv)
qed

lemma all_sep_no_runs: "set d \<subseteq> {sep} \<Longrightarrow> maximal_runs d = []"
  by (induction d) (auto simp: maximal_runs_Nil maximal_runs_sep)

lemma join_root_Cons: "rest \<noteq> [] \<Longrightarrow> join ([sep] # rest) = sep # join rest"
  by (cases rest) simp_all

lemma join_run_Cons:
  assumes "w \<noteq> [sep]" "r \<noteq> [sep]"
  shows "join (w # r # rest) = w @ sep # join (r # rest)"
  using assms by simp

lemma join_runs:
  "(p \<noteq> [] \<and> hd p \<noteq> sep \<longrightarrow>
      join (maximal_runs p @ (if p \<noteq> [] \<and> last p = sep then [[sep]] else [])) = collapse p) \<and>
   (p \<noteq> [] \<and> hd p = sep \<and> maximal_runs p \<noteq> [] \<longrightarrow>
      sep # join (maximal_runs p @ (if p \<noteq> [] \<and> last p = sep then [[sep]] else [])) = collapse p)"
proof (induction p rule: runs_induct)
  case Nil
  show ?case by simp
next
  case (Sep cs)
  show ?case
  proof (cases "maximal_runs cs = []")
    case True
    then show ?thesis by (simp add: maximal_runs_sep)
  next
    case False
    then have ne: "cs \<noteq> []"
      by (auto simp: maximal_runs_Nil)
    then obtain c cs' where cs: "cs = c # cs'"
      by (cases cs) auto
    show ?thesis
    proof (cases "c = sep")
      case True
      with Sep False cs show ?thesis
        by (simp add: maximal_runs_sep)
    next
      case nonsep: False
      with Sep False cs show ?thesis
        by (simp add: maximal_runs_sep)
    qed
  qed
next
  case (Run c cs)
  define q where "q = c # cs"
  define w where "w = c # takeWhile (\<lambda>x. x \<noteq> sep) cs"
  define d where "d = dropWhile (\<lambda>x. x \<noteq> sep) cs"
  have p: "q = w @ d"
    by (simp add: q_def w_def d_def)
  have w_free: "sep \<notin> set w"
    using Run(1) by (auto simp: w_def dest: set_takeWhileD)
  then have w_root: "w \<noteq> [sep]" by auto
  have runs: "maximal_runs q = w # maximal_runs d"
    using Run(1) by (simp add: maximal_runs_nonsep q_def w_def d_def)
  have col: "collapse q = w @ collapse d"
    unfolding p using w_free by (rule collapse_run)
  have IH: "d \<noteq> [] \<Longrightarrow> maximal_runs d \<noteq> [] \<Longrightarrow>
      sep # join (maximal_runs d @ (if d \<noteq> [] \<and> last d = sep then [[sep]] else [])) = collapse d"
    using Run(2) hd_dropWhile [of "\<lambda>x. x \<noteq> sep" cs] by (simp add: d_def)
  have "join (maximal_runs q @ (if last q = sep then [[sep]] else [])) = collapse q"
  proof (cases "d = []")
    case True
    then have "last q = last w" by (simp add: p)
    moreover have "last w \<in> set w" by (simp add: w_def)
    ultimately have "last q \<noteq> sep" using w_free by metis
    with True show ?thesis
      by (simp add: runs col maximal_runs_Nil)
  next
    case False
    then have last: "last q = last d" by (simp add: p)
    show ?thesis
    proof (cases "maximal_runs d = []")
      case True
      then have all: "set d \<subseteq> {sep}" by (rule no_runs_all_sep)
      with False have "last d = sep"
        using last_in_set [of d] by blast
      moreover from False all have "collapse d = [sep]" by (rule collapse_all_sep)
      ultimately show ?thesis
        using True w_root by (simp add: runs col last)
    next
      case ne: False
      then obtain r rs where rs: "maximal_runs d = r # rs"
        by (cases "maximal_runs d") auto
      then have "r \<noteq> [sep]"
        using maximal_runs_no_root [of d] by auto
      with w_root have "join (w # r # (rs @ (if last d = sep then [[sep]] else []))) =
          w @ sep # join (r # (rs @ (if last d = sep then [[sep]] else [])))"
        by (rule join_run_Cons)
      moreover have "sep # join (r # (rs @ (if last d = sep then [[sep]] else []))) = collapse d"
        using IH [OF False ne] False by (simp add: rs)
      ultimately show ?thesis
        by (simp add: runs col last rs)
    qed
  qed
  with Run(1) show ?case by (simp add: q_def)
qed

lemma trailing_runs:
  assumes "maximal_runs p \<noteq> []"
  shows "trailing p = (if p \<noteq> [] \<and> last p = sep then [[sep]] else [])"
proof -
  from assms have "\<not> set p \<subseteq> {sep}"
    using all_sep_no_runs by blast
  then obtain c where "c \<in> set p" "c \<noteq> sep" by auto
  then have "last p = sep \<Longrightarrow> 1 < length p"
    by (cases p rule: rev_cases) (auto simp: Suc_lessI)
  then show ?thesis
    by (auto simp: trailing_def)
qed

lemma join_segments_runs:
  assumes "maximal_runs p \<noteq> []"
  shows "join (leading p @ maximal_runs p @ trailing p) = collapse p"
proof -
  from assms have ne: "p \<noteq> []"
    by (auto simp: maximal_runs_Nil)
  let ?t = "if p \<noteq> [] \<and> last p = sep then [[sep]] else []"
  show ?thesis
  proof (cases "hd p = sep")
    case True
    with ne assms have "sep # join (maximal_runs p @ ?t) = collapse p"
      using join_runs [of p] by blast
    moreover have "join ([sep] # maximal_runs p @ ?t) = sep # join (maximal_runs p @ ?t)"
      using assms by (intro join_root_Cons) simp
    ultimately show ?thesis
      using True ne assms by (simp add: leading_def trailing_runs)
  next
    case False
    with ne have "join (maximal_runs p @ ?t) = collapse p"
      using join_runs [of p] by blast
    with False assms show ?thesis
      by (simp add: leading_def trailing_runs)
  qed
qed

lemma segments_all_sep:
  assumes "set p \<subseteq> {sep}"
  shows "leading p @ maximal_runs p @ trailing p =
    (if p = [] then [] else if length p = 1 then [[sep]] else [[sep], [sep]])"
proof (cases p)
  case Nil
  then show ?thesis
    by (simp add: leading_def trailing_def maximal_runs_Nil)
next
  case (Cons c cs)
  with assms have "hd p = sep" "last p = sep"
    using last_in_set [of p] by auto
  with Cons assms show ?thesis
    by (auto simp: leading_def trailing_def all_sep_no_runs)
qed

lemma temp_out_eq: "temp_out (PATPathComponents path count0 temp0 h) = temp0"
  by (simp add: PATPathComponents_def Let_def split: prod.splits)

lemma collect_strings_nonempty:
  assumes "c_string path \<noteq> []"
  shows "collect_strings path \<noteq> []"
proof (cases "hd (c_string path) = sep")
  case True
  with assms show ?thesis
    by (simp add: collect_strings_eq leading_def)
next
  case False
  with assms have "maximal_runs (c_string path) \<noteq> []"
    by (cases "c_string path") (simp_all add: maximal_runs_nonsep)
  then show ?thesis
    by (simp add: collect_strings_eq)
qed

section \<open>The claims\<close>

text \<open>
  C1 says that for a non-empty path the call writes, through \<^verbatim>\<open>temp\<close>, a handle to the
  vector that backs the returned strings, the value that \<^verbatim>\<open>PATFreePathComponents\<close>
  deletes as a \<^verbatim>\<open>vector<string> *\<close>. The body of \<^verbatim>\<open>PATPathComponents\<close> never assigns
  \<^verbatim>\<open>*temp\<close> (lemma \<open>temp_out_eq\<close>). On the path \<^verbatim>\<open>a\<close>, with a null handle cell and
  an empty heap, the handle cell is still null after the call while the vector lives at
  address 0; releasing with what the call returned frees the array at address 1 only and
  the vector stays allocated.
\<close>

theorem split_never_writes_handle:
  "temp_out (PATPathComponents ''a'' 0 None empty_heap) = None \<and>
   components (PATPathComponents ''a'' 0 None empty_heap) = Some 1 \<and>
   objs (heap_out (PATPathComponents ''a'' 0 None empty_heap)) 0 = Some (StringVector [''a'']) \<and>
   (\<exists>h'. PATFreePathComponents
            (components (PATPathComponents ''a'' 0 None empty_heap))
            (temp_out (PATPathComponents ''a'' 0 None empty_heap))
            (heap_out (PATPathComponents ''a'' 0 None empty_heap)) = Inr h' \<and>
         objs h' 1 = None \<and>
         objs h' 0 = Some (StringVector [''a'']))"
proof -
  have ne: "char_at ''a'' 0 \<noteq> CHR 0x00"
    by (simp add: char_at_def)
  have c: "collect_strings ''a'' = [''a'']"
    by (simp add: collect_strings_eq leading_def trailing_def c_string_def maximal_runs_def
        sep_def)
  show ?thesis
    by (simp add: PATPathComponents_nonempty [OF ne] c empty_heap_def
        PATFreePathComponents_def delete_array_def delete_vector_def)
qed

text \<open>
  C2. For every path, the returned array denotes a sequence of segments with as many
  entries as the reported count, and no segment is the empty string.
\<close>

theorem split_count_and_nonempty_segments:
  "\<exists>segs. segments (PATPathComponents path count0 temp0 h) = Some segs \<and>
     length segs = count_out (PATPathComponents path count0 temp0 h) \<and>
     [] \<notin> set segs"
proof -
  have "[] \<notin> set (collect_strings path)"
    using maximal_runs_nonempty [of "c_string path"]
    by (simp add: collect_strings_eq leading_def trailing_def)
  then show ?thesis
    by (simp add: segments_eq count_out_eq)
qed

text \<open>
  C3. For every non-empty path the returned segments are: the root marker exactly when
  the first character is the separator, then the maximal runs, then one more root marker
  exactly when the path is longer than one character and its last character is the
  separator. No run is a root marker, so the first segment is the root marker if and only
  if the first character is the separator.
\<close>

theorem split_root_markers:
  assumes "c_string path \<noteq> []"
  shows "\<exists>segs. segments (PATPathComponents path count0 temp0 h) = Some segs \<and>
     (hd segs = [sep] \<longleftrightarrow> char_at path 0 = sep) \<and>
     segs = (if char_at path 0 = sep then [[sep]] else []) @
            maximal_runs (c_string path) @
            (if 1 < strlen path \<and> char_at path (strlen path - 1) = sep then [[sep]] else []) \<and>
     [sep] \<notin> set (maximal_runs (c_string path))"
proof -
  let ?p = "c_string path"
  from assms have first: "char_at path 0 = hd ?p"
    by (rule char_at_0_hd)
  from assms have final: "char_at path (strlen path - 1) = last ?p"
    by (rule char_at_last)
  have decomp: "collect_strings path =
      (if char_at path 0 = sep then [[sep]] else []) @ maximal_runs ?p @
      (if 1 < strlen path \<and> char_at path (strlen path - 1) = sep then [[sep]] else [])"
    using assms final
    by (simp add: collect_strings_eq leading_def trailing_def first strlen_c_string)
  have "hd (collect_strings path) = [sep] \<longleftrightarrow> hd ?p = sep"
  proof (cases "hd ?p = sep")
    case True
    with assms show ?thesis
      by (simp add: collect_strings_eq leading_def)
  next
    case False
    with assms obtain r rs where "maximal_runs ?p = r # rs"
      by (cases ?p) (auto simp: maximal_runs_nonsep)
    moreover from this have "r \<noteq> [sep]"
      using maximal_runs_no_root [of ?p] by auto
    ultimately show ?thesis
      using False by (simp add: collect_strings_eq leading_def)
  qed
  with decomp show ?thesis
    using maximal_runs_no_root [of ?p] by (simp add: segments_eq first)
qed

theorem split_root_markers_witness:
  "c_string ''/a//b/'' \<noteq> [] \<and>
   (\<exists>segs. segments (PATPathComponents ''/a//b/'' 0 None empty_heap) = Some segs \<and>
      hd segs = ''/'' \<and> segs = [''/'', ''a'', ''b'', ''/''])"
proof -
  have ne: "c_string ''/a//b/'' \<noteq> []"
    by (simp add: c_string_def)
  from ne split_root_markers [OF ne, of 0 None empty_heap] show ?thesis
    by (auto simp: c_string_def sep_def strlen_def char_at_def maximal_runs_def)
qed

text \<open>
  C4. On the empty path the call returns \<^verbatim>\<open>NULL\<close>, which denotes the empty sequence of
  segments, sets the count to 0 and allocates nothing: the heap is the one before the call,
  so there is nothing to release.
\<close>

theorem split_empty_path:
  assumes "c_string path = []"
  shows "components (PATPathComponents path count0 temp0 h) = None \<and>
    count_out (PATPathComponents path count0 temp0 h) = 0 \<and>
    heap_out (PATPathComponents path count0 temp0 h) = h \<and>
    segments (PATPathComponents path count0 temp0 h) = Some []"
proof -
  from assms have "char_at path 0 = CHR 0x00"
    by (simp add: char_at_0_NUL)
  then show ?thesis
    by (simp add: PATPathComponents_empty segments_def)
qed

theorem split_empty_path_witness:
  "c_string [] = [] \<and>
   components (PATPathComponents [] 7 None empty_heap) = None \<and>
   count_out (PATPathComponents [] 7 None empty_heap) = 0 \<and>
   heap_out (PATPathComponents [] 7 None empty_heap) = empty_heap \<and>
   segments (PATPathComponents [] 7 None empty_heap) = Some []"
proof -
  have e: "c_string [] = []"
    by (simp add: c_string_def)
  from e split_empty_path [OF e, of 7 None empty_heap] show ?thesis
    by simp
qed

text \<open>
  C5. The path \<^verbatim>\<open>/\<close> is split into exactly one segment, the root marker.
\<close>

theorem split_single_slash:
  "segments (PATPathComponents ''/'' count0 temp0 h) = Some [''/''] \<and>
   count_out (PATPathComponents ''/'' count0 temp0 h) = 1"
  by (simp add: segments_eq count_out_eq collect_strings_eq leading_def trailing_def
      c_string_def maximal_runs_def sep_def)

text \<open>
  C6. For every path that neither starts nor ends with the separator, the returned segments
  are exactly the maximal runs of non-separator characters in their order, none of them a
  root marker and none empty; \<^verbatim>\<open>a/b/c\<close> gives \<^verbatim>\<open>a\<close>, \<^verbatim>\<open>b\<close>, \<^verbatim>\<open>c\<close> and \<^verbatim>\<open>a//b\<close> gives
  \<^verbatim>\<open>a\<close>, \<^verbatim>\<open>b\<close>.
\<close>

theorem split_relative_path:
  "(char_at path 0 \<noteq> sep \<and> (strlen path = 0 \<or> char_at path (strlen path - 1) \<noteq> sep) \<longrightarrow>
      segments (PATPathComponents path count0 temp0 h) = Some (maximal_runs (c_string path)) \<and>
      [sep] \<notin> set (maximal_runs (c_string path)) \<and>
      [] \<notin> set (maximal_runs (c_string path))) \<and>
   segments (PATPathComponents ''a/b/c'' count0 temp0 h) = Some [''a'', ''b'', ''c''] \<and>
   segments (PATPathComponents ''a//b'' count0 temp0 h) = Some [''a'', ''b'']"
proof -
  let ?p = "c_string path"
  have "collect_strings path = maximal_runs ?p"
    if "char_at path 0 \<noteq> sep"
      and "strlen path = 0 \<or> char_at path (strlen path - 1) \<noteq> sep"
  proof (cases "?p = []")
    case True
    then show ?thesis
      by (simp add: collect_strings_eq leading_def trailing_def)
  next
    case False
    with that have "hd ?p \<noteq> sep" "last ?p \<noteq> sep"
      by (simp_all add: char_at_0_hd char_at_last [symmetric] strlen_c_string)
    then show ?thesis
      by (simp add: collect_strings_eq leading_def trailing_def)
  qed
  moreover have "collect_strings ''a/b/c'' = [''a'', ''b'', ''c'']"
    by (simp add: collect_strings_eq leading_def trailing_def c_string_def maximal_runs_def
        sep_def)
  moreover have "collect_strings ''a//b'' = [''a'', ''b'']"
    by (simp add: collect_strings_eq leading_def trailing_def c_string_def maximal_runs_def
        sep_def)
  ultimately show ?thesis
    using maximal_runs_no_root [of ?p] maximal_runs_nonempty [of ?p]
    by (simp add: segments_eq)
qed

theorem split_relative_path_witness:
  "char_at ''usr//lib'' 0 \<noteq> sep \<and> char_at ''usr//lib'' (strlen ''usr//lib'' - 1) \<noteq> sep \<and>
   segments (PATPathComponents ''usr//lib'' 0 None empty_heap) = Some [''usr'', ''lib'']"
  using split_relative_path [of "''usr//lib''" 0 None empty_heap]
  by (simp add: c_string_def sep_def strlen_def char_at_def maximal_runs_def)

text \<open>
  C7, as amended. For every path, the returned segments joined (a single separator
  between two adjacent segments that are both not the root marker, nothing next to a root
  marker) are exactly the input with its repeated separators collapsed, except for a path
  that consists of two or more separators and nothing else: its two root markers are
  joined to two separators.
\<close>

theorem split_join_exact:
  "\<exists>segs. segments (PATPathComponents path count0 temp0 h) = Some segs \<and>
     join segs =
       (if 2 \<le> strlen path \<and> set (c_string path) \<subseteq> {sep} then [sep, sep]
        else collapse (c_string path))"
proof -
  let ?p = "c_string path"
  let ?segs = "leading ?p @ maximal_runs ?p @ trailing ?p"
  have "join ?segs = (if 2 \<le> length ?p \<and> set ?p \<subseteq> {sep} then [sep, sep] else collapse ?p)"
  proof (cases "maximal_runs ?p = []")
    case True
    then have all: "set ?p \<subseteq> {sep}" by (rule no_runs_all_sep)
    then show ?thesis
      by (cases ?p rule: collapse.cases) (auto simp: segments_all_sep)
  next
    case False
    then have "\<not> set ?p \<subseteq> {sep}"
      using all_sep_no_runs by blast
    with False show ?thesis
      by (simp add: join_segments_runs)
  qed
  then show ?thesis
    by (simp add: segments_eq collect_strings_eq strlen_c_string)
qed

theorem split_join_exact_witness:
  "\<exists>segs. segments (PATPathComponents ''/usr//local/'' 0 None empty_heap) = Some segs \<and>
     join segs = ''/usr/local/'' \<and> collapse (c_string ''/usr//local/'') = ''/usr/local/''"
  using split_join_exact [of "''/usr//local/''" 0 None empty_heap]
  by (auto simp: c_string_def sep_def strlen_def)

text \<open>
  C7 as it was stated, with no exception, fails on the path \<^verbatim>\<open>//\<close>: the segments are two
  root markers, joined to \<^verbatim>\<open>//\<close>, while the input with repeated separators collapsed is
  \<^verbatim>\<open>/\<close>.
\<close>

theorem split_join_double_slash:
  "segments (PATPathComponents ''//'' 0 None empty_heap) = Some [''/'', ''/''] \<and>
   join [''/'', ''/''] = ''//'' \<and>
   collapse (c_string ''//'') = ''/'' \<and>
   join [''/'', ''/''] \<noteq> collapse (c_string ''//'')"
  by (simp add: segments_eq collect_strings_eq leading_def trailing_def c_string_def
      maximal_runs_def sep_def)

text \<open>
  C8. The three loops are total functions (their termination is proved with the measure
  \<^verbatim>\<open>endPos - curPos\<close> where they are defined), and for every path the call yields a
  result that denotes a sequence of segments; there is no failure value. The returned
  pointer is \<^verbatim>\<open>NULL\<close>, and the sequence empty, exactly for the empty path.
\<close>

theorem split_total:
  "\<exists>segs. segments (PATPathComponents path count0 temp0 h) = Some segs \<and>
     (components (PATPathComponents path count0 temp0 h) = None \<longleftrightarrow> c_string path = []) \<and>
     (segs = [] \<longleftrightarrow> c_string path = [])"
proof -
  have "components (PATPathComponents path count0 temp0 h) = None \<longleftrightarrow> c_string path = []"
    by (cases "char_at path 0 = CHR 0x00")
       (simp_all add: PATPathComponents_empty PATPathComponents_nonempty char_at_0_NUL)
  moreover have "collect_strings path = [] \<longleftrightarrow> c_string path = []"
    using collect_strings_nonempty [of path] collect_strings_empty [of path]
    by (auto simp: char_at_0_NUL)
  ultimately show ?thesis
    by (simp add: segments_eq)
qed

text \<open>
  C9. For every non-empty path the count, which is the number of returned segments, is
  at least 1: either the first character is the separator and the first returned segment
  is the root marker, or it is not, and then the scanning loop collects at least one
  string, none of them empty, and the first returned segment is the first string that
  the loop collected: the non-empty run of characters up to the first separator.
\<close>

theorem split_nonempty_count:
  assumes "c_string path \<noteq> []"
  shows "1 \<le> count_out (PATPathComponents path count0 temp0 h) \<and>
    (\<exists>segs. segments (PATPathComponents path count0 temp0 h) = Some segs \<and>
       length segs = count_out (PATPathComponents path count0 temp0 h) \<and>
       (char_at path 0 = sep \<and> hd segs = [sep] \<or>
        char_at path 0 \<noteq> sep \<and>
          scan path (strlen path) 0 [] \<noteq> [] \<and>
          [] \<notin> set (scan path (strlen path) 0 []) \<and>
          hd segs = hd (scan path (strlen path) 0 []) \<and>
          hd segs = takeWhile (\<lambda>c. c \<noteq> sep) (c_string path) \<and>
          hd segs \<noteq> []))"
proof -
  let ?p = "c_string path"
  from assms have first: "char_at path 0 = hd ?p"
    by (rule char_at_0_hd)
  have scanned: "scan path (strlen path) 0 [] = maximal_runs ?p"
    using scan_eq [of "strlen path" path 0 "[]"] by simp
  from assms have "collect_strings path \<noteq> []"
    by (rule collect_strings_nonempty)
  then have count: "1 \<le> length (collect_strings path)"
    by (cases "collect_strings path") simp_all
  show ?thesis
  proof (cases "hd ?p = sep")
    case True
    with assms have "hd (collect_strings path) = [sep]"
      by (simp add: collect_strings_eq leading_def)
    with True count show ?thesis
      by (simp add: segments_eq count_out_eq first)
  next
    case False
    let ?run = "takeWhile (\<lambda>c. c \<noteq> sep) ?p"
    from assms False have runs: "maximal_runs ?p =
        ?run # maximal_runs (dropWhile (\<lambda>c. c \<noteq> sep) ?p)"
      by (rule maximal_runs_take_run)
    from assms False have ne: "?run \<noteq> []"
      by (cases ?p) simp_all
    from False have "hd (collect_strings path) = hd (maximal_runs ?p)"
      by (simp add: collect_strings_eq leading_def runs)
    with runs have hd: "hd (collect_strings path) = ?run"
      by simp
    have "maximal_runs ?p \<noteq> []"
      by (simp add: runs)
    with False count hd ne runs show ?thesis
      using maximal_runs_nonempty [of ?p]
      by (simp add: segments_eq count_out_eq first scanned)
  qed
qed

theorem split_nonempty_count_witness:
  "c_string ''lib/'' \<noteq> [] \<and> 1 \<le> count_out (PATPathComponents ''lib/'' 0 None empty_heap) \<and>
   (\<exists>segs. segments (PATPathComponents ''lib/'' 0 None empty_heap) = Some segs \<and>
      hd segs = ''lib'')"
proof -
  have ne: "c_string ''lib/'' \<noteq> []"
    by (simp add: c_string_def)
  from ne split_nonempty_count [OF ne, of 0 None empty_heap] show ?thesis
    by (auto simp: c_string_def char_at_def sep_def)
qed

text \<open>
  C10. A path of three or more characters, all of them the separator, is split into
  exactly two segments, both the root marker.
\<close>

theorem split_only_slashes:
  assumes "set (c_string path) \<subseteq> {sep}" and "3 \<le> strlen path"
  shows "segments (PATPathComponents path count0 temp0 h) = Some [[sep], [sep]] \<and>
    count_out (PATPathComponents path count0 temp0 h) = 2"
proof -
  from assms(2) have "c_string path \<noteq> []" "length (c_string path) \<noteq> 1"
    by (auto simp: strlen_c_string)
  with assms(1) have "collect_strings path = [[sep], [sep]]"
    by (simp add: collect_strings_eq segments_all_sep)
  then show ?thesis
    by (simp add: segments_eq count_out_eq)
qed

theorem split_only_slashes_witness:
  "set (c_string ''////'') \<subseteq> {sep} \<and> 3 \<le> strlen ''////'' \<and>
   segments (PATPathComponents ''////'' 0 None empty_heap) = Some [''/'', ''/''] \<and>
   count_out (PATPathComponents ''////'' 0 None empty_heap) = 2"
proof -
  have a: "set (c_string ''////'') \<subseteq> {sep}"
    by (simp add: c_string_def sep_def)
  have b: "3 \<le> strlen ''////''"
    by (simp add: strlen_def)
  from a b split_only_slashes [OF a b, of 0 None empty_heap] show ?thesis
    by (simp add: sep_def)
qed

end
